theory Spec2Isabelle
  imports Main "HOL-Library.Word" "HOL-Library.Monad_Syntax"
begin

section \<open>Common enumerations (ZCommonEnums.h)\<close>

text \<open>
  The enumerations the event and graphics code consume, with the enumerators in the order
  the header declares them.
\<close>

datatype RenderMode = Text | Graphics16 | Vulkan

datatype WidgetState = Normal | Hovered | Pressed | Disabled

text \<open>
  Modelled from the spec: the enumerator \<open>EventType::MouseRelease\<close>. The header declares
  \<open>MouseClick\<close>, \<open>KeyPress\<close> and \<open>TouchStart\<close> only (ZCommonEnums.h:85-89), while
  \<open>dispatchEvents\<close> compares an event's type with \<open>EventType::MouseRelease\<close>
  (ZEventManager.cpp:25); the spec names it as the enumerator with which the enumeration
  must be extended. It is the last constructor here, after the three declared ones.
\<close>

datatype EventType = MouseClick | KeyPress | TouchStart | MouseRelease

text \<open>\<open>KeyModifier::None\<close> is written \<open>None_mod\<close>: \<open>None\<close> is the empty option of HOL.\<close>

datatype KeyModifier = None_mod | Shift | Ctrl | Alt

datatype InputDeviceType = Mouse | Keyboard | Touchpad

section \<open>Geometry value types (ZCommon.h)\<close>

text \<open>
  A C++ \<open>int\<close> is taken as a 32-bit two's complement value. Signed overflow is undefined
  behaviour in C++: an addition or subtraction whose exact result leaves the range of
  \<open>int\<close> has no defined value, which the model writes as \<open>None\<close>.

  The fields \<open>x\<close>, \<open>y\<close>, \<open>width\<close>, \<open>height\<close>, \<open>left\<close>, \<open>top\<close>, \<open>right\<close>, \<open>bottom\<close>
  carry a prefix naming their struct, since a record field is a constant of the theory.
\<close>

type_synonym c_int = "32 word"

definition int_range :: "int \<Rightarrow> bool" where
  "int_range v = (- (2 ^ 31) \<le> v \<and> v < 2 ^ 31)"

definition int_add :: "c_int \<Rightarrow> c_int \<Rightarrow> c_int option" where
  "int_add a b = (if int_range (sint a + sint b) then Some (a + b) else None)"

definition int_sub :: "c_int \<Rightarrow> c_int \<Rightarrow> c_int option" where
  "int_sub a b = (if int_range (sint a - sint b) then Some (a - b) else None)"

record ZPoint =
  pt_x :: c_int
  pt_y :: c_int

record ZPadding =
  pad_left :: c_int
  pad_top :: c_int
  pad_right :: c_int
  pad_bottom :: c_int

record ZRect =
  rect_x :: c_int
  rect_y :: c_int
  rect_width :: c_int
  rect_height :: c_int

text \<open>
  \<open>ZRect::deflate\<close> is a \<open>const\<close> member function taking the padding by \<open>const\<close>
  reference: its only output is the rectangle it returns. The four initialisers are
  evaluated in the order they are written; \<open>width - padding.left - padding.right\<close> is
  \<open>(width - padding.left) - padding.right\<close>.
\<close>

definition deflate :: "ZRect \<Rightarrow> ZPadding \<Rightarrow> ZRect option" where
  "deflate r padding = do {
     nx \<leftarrow> int_add (rect_x r) (pad_left padding);
     ny \<leftarrow> int_add (rect_y r) (pad_top padding);
     w1 \<leftarrow> int_sub (rect_width r) (pad_left padding);
     nw \<leftarrow> int_sub w1 (pad_right padding);
     h1 \<leftarrow> int_sub (rect_height r) (pad_top padding);
     nh \<leftarrow> int_sub h1 (pad_bottom padding);
     Some \<lparr>rect_x = nx, rect_y = ny, rect_width = nw, rect_height = nh\<rparr>
   }"

section \<open>Events (ZEvent.h)\<close>

record ZEvent =
  type :: EventType
  timestamp :: "64 word"
  deviceType :: InputDeviceType

record ZMouseEvent = ZEvent +
  position :: ZPoint
  button :: c_int
  modifiers :: KeyModifier

text \<open>
  The constructor \<open>ZEvent(t, device)\<close>, and the call \<open>ZEvent(t)\<close> that leaves the
  defaulted argument \<open>device = InputDeviceType::Mouse\<close> to the declaration.
\<close>

definition ZEvent_ctor :: "EventType \<Rightarrow> InputDeviceType \<Rightarrow> ZEvent" where
  "ZEvent_ctor t device = \<lparr>type = t, timestamp = 0, deviceType = device\<rparr>"

definition ZEvent_default :: "EventType \<Rightarrow> ZEvent" where
  "ZEvent_default t = ZEvent_ctor t Mouse"

definition ZMouseEvent_ctor :: "EventType \<Rightarrow> ZPoint \<Rightarrow> c_int \<Rightarrow> KeyModifier \<Rightarrow> ZMouseEvent" where
  "ZMouseEvent_ctor t pos btn md =
     ZEvent.extend (ZEvent_ctor t Mouse)
       (ZMouseEvent.fields pos btn md)"

text \<open>
  The queue holds \<open>std::unique_ptr<ZEvent>\<close>: an object whose dynamic type is \<open>ZEvent\<close>
  or \<open>ZMouseEvent\<close>. \<open>dynamic_cast<ZMouseEvent*>\<close> succeeds on the second only.
\<close>

datatype Event = Base ZEvent | MouseEv ZMouseEvent

fun dynamic_cast_mouse :: "Event \<Rightarrow> ZMouseEvent option" where
  "dynamic_cast_mouse (Base e) = None"
| "dynamic_cast_mouse (MouseEv m) = Some m"

section \<open>The graphics view (ZGraphicsView)\<close>

text \<open>A \<open>ZGraphicsItem*\<close> is the identity of an item: an address, here a natural number.\<close>

type_synonym item = nat

text \<open>
  Modelled from the spec: the class declaration of \<open>ZGraphicsView\<close> is absent from the
  sources (only its member functions are there). The spec gives the view an exclusively
  owned backend, a render mode and an ordered sequence of non-owning item references; the
  member functions use them as \<open>backend_\<close>, \<open>renderMode_\<close> and \<open>items_\<close> (here
  without the trailing underscore, which a field name cannot end in), the last
  through \<open>push_back\<close>, \<open>begin\<close>, \<open>end\<close> and \<open>erase\<close> of a vector.
  \<open>drawCalls\<close> is the history of the \<open>draw\<close> calls the view has made, in call order.
\<close>

record 'b ZGraphicsView =
  backend :: 'b
  renderMode :: RenderMode
  items :: "item list"
  drawCalls :: "item list"

definition addItem :: "item \<Rightarrow> 'b ZGraphicsView \<Rightarrow> 'b ZGraphicsView" where
  "addItem it v = v\<lparr>items := items v @ [it]\<rparr>"

text \<open>
  \<open>std::find(first, last, value)\<close> on positions of a vector: the first position at or
  after \<open>first\<close> that holds \<open>value\<close>, or \<open>last\<close>.
\<close>

function std_find :: "'a list \<Rightarrow> nat \<Rightarrow> 'a \<Rightarrow> nat" where
  "std_find xs first v =
     (if first < length xs \<and> xs ! first \<noteq> v then std_find xs (Suc first) v else first)"
  by pat_completeness auto
termination
  by (relation "measure (\<lambda>(xs, first, v). length xs - first)") auto

text \<open>
  The loop of \<open>std::remove\<close>,
  \<^verbatim>\<open>for (i = first; ++i != last;) if (!(*i == value)) *first++ = std::move(*i);\<close>
  with \<open>i\<close> the position before the increment; \<open>i < last\<close> holds on entry, so
  \<open>++i != last\<close> is \<open>Suc i < length xs\<close>. Moving a raw pointer copies it. The result
  is the vector after the moves, and the new logical end.
\<close>

function remove_loop :: "'a list \<Rightarrow> nat \<Rightarrow> nat \<Rightarrow> 'a \<Rightarrow> 'a list \<times> nat" where
  "remove_loop xs first i v =
     (if Suc i < length xs
      then (if xs ! Suc i \<noteq> v
            then remove_loop (xs[first := xs ! Suc i]) (Suc first) (Suc i) v
            else remove_loop xs first (Suc i) v)
      else (xs, first))"
  by pat_completeness auto
termination
  by (relation "measure (\<lambda>(xs, first, i, v). length xs - i)") auto

declare std_find.simps [simp del] remove_loop.simps [simp del]

definition std_remove :: "'a list \<Rightarrow> 'a \<Rightarrow> 'a list \<times> nat" where
  "std_remove xs v =
     (let first = std_find xs 0 v
      in if first \<noteq> length xs then remove_loop xs first first v else (xs, first))"

text \<open>\<open>items_.erase(p, items_.end())\<close> keeps the positions before \<open>p\<close>.\<close>

definition erase_to_end :: "'a list \<Rightarrow> nat \<Rightarrow> 'a list" where
  "erase_to_end xs p = take p xs"

definition removeItem :: "item \<Rightarrow> 'b ZGraphicsView \<Rightarrow> 'b ZGraphicsView" where
  "removeItem it v =
     (case std_remove (items v) it of (ys, p) \<Rightarrow> v\<lparr>items := erase_to_end ys p\<rparr>)"

text \<open>
  Modelled from the spec: the class \<open>ZGraphicsItem\<close> is absent from the sources. Its
  \<open>draw(backend)\<close> capability is a parameter of the model, \<open>draw it b\<close> being the backend
  after item \<open>it\<close> has drawn itself on backend \<open>b\<close>. The range-based \<open>for\<close> of
  \<open>render\<close> visits the positions of \<open>items_\<close> from the first to the last.
\<close>

primrec render_loop ::
  "(item \<Rightarrow> 'b \<Rightarrow> 'b) \<Rightarrow> item list \<Rightarrow> 'b ZGraphicsView \<Rightarrow> 'b ZGraphicsView" where
  "render_loop draw [] v = v"
| "render_loop draw (it # rest) v =
     render_loop draw rest
       (v\<lparr>backend := draw it (backend v), drawCalls := drawCalls v @ [it]\<rparr>)"

definition render :: "(item \<Rightarrow> 'b \<Rightarrow> 'b) \<Rightarrow> 'b ZGraphicsView \<Rightarrow> 'b ZGraphicsView" where
  "render draw v = render_loop draw (items v) v"

section \<open>The event manager (ZEventManager)\<close>

text \<open>
  A listener callback is a \<open>std::function<void(const ZEvent&)>\<close>: a closure. It is given
  the event, and it can reach the items (read and write their state), whatever else it
  has captured (the client state \<open>'c\<close>) and the public \<open>queueEvent\<close> of the manager.
  A callback is modelled by what it leaves behind: the item states and the client state
  after it has run, and the events it has passed to \<open>queueEvent\<close>, in call order.
  A callback that calls \<open>dispatchEvents\<close> or \<open>registerListener\<close> while the manager
  iterates over \<open>listeners_\<close>, one that throws and one that does not return are outside
  the model.
\<close>

type_synonym 'c callback =
  "Event \<Rightarrow> (item \<Rightarrow> WidgetState) \<Rightarrow> 'c \<Rightarrow> (item \<Rightarrow> WidgetState) \<times> 'c \<times> Event list"

type_synonym 'c listener = "item \<times> 'c callback"

text \<open>What the manager does to the outside: a callback invocation, or a \<open>setState\<close> call.\<close>

datatype 'c action = Called "'c listener" Event | SetState item WidgetState

text \<open>
  The manager's \<open>eventQueue_\<close> and \<open>listeners_\<close>, the \<open>state\<close> of every item, the
  client state, and two histories: \<open>history\<close>, the manager's actions in the order it took
  them, and \<open>queued\<close>, every event ever passed to \<open>queueEvent\<close>, in call order.
\<close>

record 'c world =
  eventQueue :: "Event list"
  listeners :: "'c listener list"
  itemState :: "item \<Rightarrow> WidgetState"
  client :: 'c
  history :: "'c action list"
  queued :: "Event list"

definition queueEvent :: "Event \<Rightarrow> 'c world \<Rightarrow> 'c world" where
  "queueEvent event w = w\<lparr>eventQueue := eventQueue w @ [event], queued := queued w @ [event]\<rparr>"

definition registerListener :: "item \<Rightarrow> 'c callback \<Rightarrow> 'c world \<Rightarrow> 'c world" where
  "registerListener it callback w = w\<lparr>listeners := listeners w @ [(it, callback)]\<rparr>"

text \<open>
  Modelled from the spec: the class \<open>ZGraphicsItem\<close> is absent from the sources;
  \<open>setState(WidgetState)\<close> is, in the spec's words, an unconditional mutation with no
  validation against the current state.
\<close>

definition setState :: "item \<Rightarrow> WidgetState \<Rightarrow> 'c world \<Rightarrow> 'c world" where
  "setState it s w =
     w\<lparr>itemState := (itemState w)(it := s), history := history w @ [SetState it s]\<rparr>"

text \<open>\<open>callback(*event)\<close> for the listener \<open>l\<close>.\<close>

definition call :: "'c listener \<Rightarrow> Event \<Rightarrow> 'c world \<Rightarrow> 'c world" where
  "call l event w =
     (case snd l event (itemState w) (client w) of (st, c, evs) \<Rightarrow>
        foldl (\<lambda>w' e. queueEvent e w')
          (w\<lparr>itemState := st, client := c, history := history w @ [Called l event]\<rparr>) evs)"

text \<open>The \<open>if (auto* mouseEvent = dynamic_cast<ZMouseEvent*>(event.get()))\<close> block.\<close>

definition stateRule :: "Event \<Rightarrow> item \<Rightarrow> 'c world \<Rightarrow> 'c world" where
  "stateRule event it w =
     (case dynamic_cast_mouse event of
        None \<Rightarrow> w
      | Some mouseEvent \<Rightarrow>
          if type mouseEvent = MouseClick then setState it Pressed w
          else if type mouseEvent = MouseRelease then setState it Normal w
          else w)"

text \<open>The body of \<open>for (auto& [item, callback] : listeners_)\<close>, and the loop.\<close>

definition notify :: "Event \<Rightarrow> 'c listener \<Rightarrow> 'c world \<Rightarrow> 'c world" where
  "notify event l w = stateRule event (fst l) (call l event w)"

primrec listener_loop :: "Event \<Rightarrow> 'c listener list \<Rightarrow> 'c world \<Rightarrow> 'c world" where
  "listener_loop event [] w = w"
| "listener_loop event (l # ls) w = listener_loop event ls (notify event l w)"

text \<open>
  The body of \<open>while (!eventQueue_.empty())\<close>: take the front event, pop it, run the
  listener loop. The loop guard keeps the body from an empty queue.
\<close>

definition loop_body :: "'c world \<Rightarrow> 'c world" where
  "loop_body w =
     (case eventQueue w of
        [] \<Rightarrow> w
      | event # rest \<Rightarrow> listener_loop event (listeners w) (w\<lparr>eventQueue := rest\<rparr>))"

text \<open>
  \<open>dispatchEvents\<close>. Callbacks can keep the queue from ever emptying, so the loop is a
  partial function: \<open>None\<close> is a pass that never returns.
\<close>

partial_function (option) dispatchEvents :: "'c world \<Rightarrow> 'c world option" where
  "dispatchEvents w = (if eventQueue w = [] then Some w else dispatchEvents (loop_body w))"

text \<open>
  The run of the loop, iteration by iteration: \<open>run n w\<close> is the world after \<open>n\<close> tests of
  the loop guard, a world with an empty queue staying as it is.
\<close>

definition iteration :: "'c world \<Rightarrow> 'c world" where
  "iteration w = (if eventQueue w = [] then w else loop_body w)"

definition run :: "nat \<Rightarrow> 'c world \<Rightarrow> 'c world" where
  "run n w = (iteration ^^ n) w"

text \<open>
  The callbacks enqueue only finitely many events during the pass: the number of
  \<open>queueEvent\<close> calls stays below one bound all along the run.
\<close>

definition enqueues_finitely :: "'c world \<Rightarrow> bool" where
  "enqueues_finitely w = (\<exists>B. \<forall>n. length (queued (run n w)) \<le> B)"

text \<open>The events passed to \<open>queueEvent\<close> between the world \<open>w\<close> and the later world \<open>w'\<close>.\<close>

definition enqueued_since :: "'c world \<Rightarrow> 'c world \<Rightarrow> Event list" where
  "enqueued_since w w' = drop (length (queued w)) (queued w')"

text \<open>
  What the manager does for one listener after its callback, and for one event: the
  callback invocation of each listener, each followed by the \<open>setState\<close> call of the
  state rule, if any.
\<close>

definition rule_actions :: "Event \<Rightarrow> item \<Rightarrow> 'c action list" where
  "rule_actions event it =
     (case dynamic_cast_mouse event of
        None \<Rightarrow> []
      | Some mouseEvent \<Rightarrow>
          if type mouseEvent = MouseClick then [SetState it Pressed]
          else if type mouseEvent = MouseRelease then [SetState it Normal]
          else [])"

definition event_actions :: "'c listener list \<Rightarrow> Event \<Rightarrow> 'c action list" where
  "event_actions ls event = concat (map (\<lambda>l. Called l event # rule_actions event (fst l)) ls)"

fun is_Called :: "'c action \<Rightarrow> bool" where
  "is_Called (Called l e) = True"
| "is_Called (SetState it s) = False"


text \<open>
  What the pass amounts to outside the manager. \<open>outside\<close> is what callbacks can reach of
  a world: the item states and the client state. A delivery is one event handed to one
  listener: its callback applied to the item states and the client state of the moment,
  then the state rule on the item registered with that listener. \<open>deliveries\<close> lists the
  deliveries for a sequence of events: event by event, and for each event listener by
  listener in registration order. \<open>emitted\<close> collects the events that the callbacks
  pass to \<open>queueEvent\<close> along a sequence of deliveries. \<open>callback_only\<close> is a
  delivery without the state rule.
\<close>

definition outside :: "'c world \<Rightarrow> (item \<Rightarrow> WidgetState) \<times> 'c" where
  "outside w = (itemState w, client w)"

definition rule_state :: "Event \<Rightarrow> item \<Rightarrow> (item \<Rightarrow> WidgetState) \<Rightarrow> (item \<Rightarrow> WidgetState)" where
  "rule_state event it st =
     (case dynamic_cast_mouse event of
        None \<Rightarrow> st
      | Some mouseEvent \<Rightarrow>
          if type mouseEvent = MouseClick then st(it := Pressed)
          else if type mouseEvent = MouseRelease then st(it := Normal)
          else st)"

fun deliver ::
  "(item \<Rightarrow> WidgetState) \<times> 'c \<Rightarrow> Event \<times> 'c listener \<Rightarrow> (item \<Rightarrow> WidgetState) \<times> 'c" where
  "deliver (st, c) (event, (it, callback)) =
     (case callback event st c of (st', c', evs) \<Rightarrow> (rule_state event it st', c'))"


definition deliveries :: "'c listener list \<Rightarrow> Event list \<Rightarrow> (Event \<times> 'c listener) list" where
  "deliveries ls es = concat (map (\<lambda>e. map (\<lambda>l. (e, l)) ls) es)"

fun emitted ::
  "(item \<Rightarrow> WidgetState) \<times> 'c \<Rightarrow> (Event \<times> 'c listener) list \<Rightarrow> Event list" where
  "emitted s [] = []"
| "emitted (st, c) ((event, (it, callback)) # ds) =
     (case callback event st c of (st', c', evs) \<Rightarrow>
        evs @ emitted (deliver (st, c) (event, (it, callback))) ds)"

text \<open>
  The events of a pass that starts in the world \<open>w\<close>, as far as the later world \<open>u\<close>
  knows them: the events queued in \<open>w\<close>, then the events enqueued since, in the order
  they were enqueued; and the deliveries for them. \<open>is_mouse_of t\<close> holds of a
  mouse-variant event whose type is \<open>t\<close>.
\<close>

definition pass_events :: "'c world \<Rightarrow> 'c world \<Rightarrow> Event list" where
  "pass_events w u = eventQueue w @ enqueued_since w u"

definition pass_deliveries :: "'c world \<Rightarrow> 'c world \<Rightarrow> (Event \<times> 'c listener) list" where
  "pass_deliveries w u = deliveries (listeners w) (pass_events w u)"

definition is_mouse_of :: "EventType \<Rightarrow> Event \<Rightarrow> bool" where
  "is_mouse_of t event =
     (case dynamic_cast_mouse event of None \<Rightarrow> False | Some mouseEvent \<Rightarrow> type mouseEvent = t)"

section \<open>Concrete inputs\<close>

definition rect0 :: ZRect where
  "rect0 = \<lparr>rect_x = 10, rect_y = 20, rect_width = 100, rect_height = 50\<rparr>"

definition pad0 :: ZPadding where
  "pad0 = \<lparr>pad_left = 1, pad_top = 2, pad_right = 3, pad_bottom = 4\<rparr>"

text \<open>A rectangle at the largest \<open>int\<close>, and a padding of one on the left.\<close>

definition rect_max :: ZRect where
  "rect_max = \<lparr>rect_x = 2147483647, rect_y = 0, rect_width = 10, rect_height = 10\<rparr>"

definition pad1 :: ZPadding where
  "pad1 = \<lparr>pad_left = 1, pad_top = 0, pad_right = 0, pad_bottom = 0\<rparr>"

text \<open>A view that already holds the item 7 once.\<close>

definition view_dup :: "unit ZGraphicsView" where
  "view_dup = \<lparr>backend = (), renderMode = Text, items = [7], drawCalls = []\<rparr>"

text \<open>Events, callbacks and managers for the concrete runs.\<close>

definition origin :: ZPoint where
  "origin = \<lparr>pt_x = 0, pt_y = 0\<rparr>"

text \<open>A mouse click, built by the \<open>ZMouseEvent\<close> constructor, and a key press on a base event.\<close>

definition click :: Event where
  "click = MouseEv (ZMouseEvent_ctor MouseClick origin 0 None_mod)"

definition keyPress :: Event where
  "keyPress = Base (ZEvent_ctor KeyPress Keyboard)"

text \<open>A manager with nothing queued and nothing registered; every item is \<open>Normal\<close>.\<close>

definition fresh :: "'c \<Rightarrow> 'c world" where
  "fresh c = \<lparr>eventQueue = [], listeners = [], itemState = (\<lambda>it. Normal), client = c,
     history = [], queued = []\<rparr>"

text \<open>
  Three callbacks: \<open>observer\<close> records the state of item 0 that it sees, \<open>silent\<close> does
  nothing, \<open>echo\<close> queues a key press whenever it is given a mouse event.
\<close>

definition observer :: "WidgetState list callback" where
  "observer e st c = (st, c @ [st 0], [])"

definition silent :: "unit callback" where
  "silent e st c = (st, c, [])"

definition echo :: "unit callback" where
  "echo e st c = (st, c, case dynamic_cast_mouse e of None \<Rightarrow> [] | Some m \<Rightarrow> [keyPress])"

text \<open>The managers of the concrete runs, built by \<open>registerListener\<close> and \<open>queueEvent\<close>.\<close>

definition two_observers :: "WidgetState list world" where
  "two_observers = queueEvent click (registerListener 1 observer (registerListener 0 observer (fresh [])))"

definition no_listener :: "unit world" where
  "no_listener = queueEvent click (fresh ())"

definition echo_world :: "unit world" where
  "echo_world = queueEvent click (registerListener 0 echo (fresh ()))"

definition key_world :: "unit world" where
  "key_world = queueEvent keyPress (registerListener 0 silent (fresh ()))"

text \<open>A mouse event of type \<open>MouseRelease\<close>.\<close>

definition release :: Event where
  "release = MouseEv (ZMouseEvent_ctor MouseRelease origin 0 None_mod)"

text \<open>
  Two more callbacks: \<open>recorder k\<close> records its own number \<open>k\<close> and the event it is
  given; \<open>relay\<close> queues a mouse click whenever it is given a non-mouse event.
\<close>

definition recorder :: "nat \<Rightarrow> (nat \<times> Event) list callback" where
  "recorder k e st c = (st, c @ [(k, e)], [])"

definition relay :: "unit callback" where
  "relay e st c = (st, c, case dynamic_cast_mouse e of None \<Rightarrow> [click] | Some m \<Rightarrow> [])"

text \<open>A manager with nothing queued and nothing registered; every item is \<open>Pressed\<close>.\<close>

definition pressed :: "'c \<Rightarrow> 'c world" where
  "pressed c = (fresh c)\<lparr>itemState := (\<lambda>it. Pressed)\<rparr>"

text \<open>
  A click queued behind a key press, for two listeners; a release for two listeners whose
  items are \<open>Pressed\<close>, and for no listener; two recording listeners, and the same
  manager after \<open>queueEvent\<close> has been called with a click and then a key press; a key
  press for a listener that relays a click.
\<close>

definition behind_world :: "WidgetState list world" where
  "behind_world =
     queueEvent click (queueEvent keyPress
       (registerListener 1 observer (registerListener 0 observer (fresh []))))"

definition release_two :: "WidgetState list world" where
  "release_two =
     queueEvent release (registerListener 1 observer (registerListener 0 observer (pressed [])))"

definition release_none :: "unit world" where
  "release_none = queueEvent release (pressed ())"

definition two_recorders :: "(nat \<times> Event) list world" where
  "two_recorders = registerListener 1 (recorder 1) (registerListener 0 (recorder 0) (fresh []))"

definition recorded :: "(nat \<times> Event) list world" where
  "recorded = foldl (\<lambda>u e. queueEvent e u) two_recorders [click, keyPress]"

definition relay_world :: "unit world" where
  "relay_world = queueEvent keyPress (registerListener 0 relay (fresh ()))"

section \<open>Geometry and constructors: proofs\<close>

lemma sint_add_exact:
  "int_range (sint (a::c_int) + sint b) \<Longrightarrow> sint (a + b) = sint a + sint b"
  by (simp add: int_range_def sint_word_add signed_take_bit_int_eq_self)

lemma sint_sub_exact:
  "int_range (sint (a::c_int) - sint b) \<Longrightarrow> sint (a - b) = sint a - sint b"
  by (simp add: int_range_def sint_word_diff signed_take_bit_int_eq_self)

text \<open>
  Claim C8, as amended. \<open>deflate\<close> is a function of the rectangle and the padding
  alone, and its only output is the rectangle it returns, so the call leaves \<open>r\<close> as it
  was. Whenever none of the six \<open>int\<close> additions and subtractions leaves the range of
  \<open>int\<close>, it returns the rectangle
  \<open>{x + left, y + top, width - left - right, height - top - bottom}\<close>, and each field is
  the exact integer value of its expression.
\<close>

theorem deflate_exact:
  assumes "int_range (sint (rect_x r) + sint (pad_left p))"
    and "int_range (sint (rect_y r) + sint (pad_top p))"
    and "int_range (sint (rect_width r) - sint (pad_left p))"
    and "int_range (sint (rect_width r) - sint (pad_left p) - sint (pad_right p))"
    and "int_range (sint (rect_height r) - sint (pad_top p))"
    and "int_range (sint (rect_height r) - sint (pad_top p) - sint (pad_bottom p))"
  shows "deflate r p =
           Some \<lparr>rect_x = rect_x r + pad_left p, rect_y = rect_y r + pad_top p,
                 rect_width = rect_width r - pad_left p - pad_right p,
                 rect_height = rect_height r - pad_top p - pad_bottom p\<rparr>
         \<and> sint (rect_x r + pad_left p) = sint (rect_x r) + sint (pad_left p)
         \<and> sint (rect_y r + pad_top p) = sint (rect_y r) + sint (pad_top p)
         \<and> sint (rect_width r - pad_left p - pad_right p)
             = sint (rect_width r) - sint (pad_left p) - sint (pad_right p)
         \<and> sint (rect_height r - pad_top p - pad_bottom p)
             = sint (rect_height r) - sint (pad_top p) - sint (pad_bottom p)"
proof -
  have w1: "sint (rect_width r - pad_left p) = sint (rect_width r) - sint (pad_left p)"
    using assms(3) by (rule sint_sub_exact)
  have h1: "sint (rect_height r - pad_top p) = sint (rect_height r) - sint (pad_top p)"
    using assms(5) by (rule sint_sub_exact)
  have w2: "int_range (sint (rect_width r - pad_left p) - sint (pad_right p))"
    using assms(4) w1 by simp
  have h2: "int_range (sint (rect_height r - pad_top p) - sint (pad_bottom p))"
    using assms(6) h1 by simp
  have d: "deflate r p =
           Some \<lparr>rect_x = rect_x r + pad_left p, rect_y = rect_y r + pad_top p,
                 rect_width = rect_width r - pad_left p - pad_right p,
                 rect_height = rect_height r - pad_top p - pad_bottom p\<rparr>"
    using assms(1,2,3,5) w2 h2 by (simp add: deflate_def int_add_def int_sub_def)
  show ?thesis
    using d sint_add_exact[OF assms(1)] sint_add_exact[OF assms(2)]
      sint_sub_exact[OF w2] sint_sub_exact[OF h2] w1 h1 by simp
qed

text \<open>The theorem at a rectangle and a padding with small fields.\<close>

theorem deflate_exact_witness:
  "deflate rect0 pad0 = Some \<lparr>rect_x = 11, rect_y = 22, rect_width = 96, rect_height = 44\<rparr>"
  using deflate_exact[of rect0 pad0]
  by (simp add: rect0_def pad0_def int_range_def)

text \<open>
  Claim C8 as it is written fails where an addition overflows: with \<open>x\<close> the largest
  \<open>int\<close> and \<open>left = 1\<close>, the exact sum \<open>2147483648\<close> is no \<open>int\<close>. The behaviour of
  \<open>x + padding.left\<close> is undefined there (\<open>None\<close>); the wrapped sum a two's complement
  machine computes is \<open>-2147483648\<close>.
\<close>

theorem deflate_overflow_counterexample:
  "sint (rect_x rect_max) + sint (pad_left pad1) = 2147483648
   \<and> deflate rect_max pad1 = None
   \<and> sint (rect_x rect_max + pad_left pad1) = - 2147483648"
  by (simp add: deflate_def int_add_def int_range_def rect_max_def pad1_def)

text \<open>
  Claim C10. For every event type \<open>t\<close>, \<open>KeyPress\<close> and \<open>TouchStart\<close> among them, the
  base event built as \<open>ZEvent(t)\<close> has device type \<open>Mouse\<close> and timestamp zero (and
  type \<open>t\<close>).
\<close>

theorem ZEvent_default_fields:
  "deviceType (ZEvent_default t) = Mouse \<and> timestamp (ZEvent_default t) = 0
   \<and> type (ZEvent_default t) = t"
  by (simp add: ZEvent_default_def ZEvent_ctor_def)

section \<open>The graphics view: proofs\<close>

lemma std_find_bounds: "first \<le> length xs \<Longrightarrow> first \<le> std_find xs first v \<and> std_find xs first v \<le> length xs"
proof (induction xs first v rule: std_find.induct)
  case (1 xs first v)
  show ?case
  proof (cases "first < length xs \<and> xs ! first \<noteq> v")
    case True
    then have f: "std_find xs first v = std_find xs (Suc first) v"
      by (subst std_find.simps) simp
    show ?thesis using "1.IH"[OF True] True f by simp
  next
    case False
    have "std_find xs first v = first"
      by (subst std_find.simps) (simp only: False if_False)
    then show ?thesis using "1.prems" by simp
  qed
qed

lemma std_find_prefix:
  "first \<le> length xs \<Longrightarrow>
   filter (\<lambda>y. y \<noteq> v) (drop first xs)
     = take (std_find xs first v - first) (drop first xs)
       @ filter (\<lambda>y. y \<noteq> v) (drop (std_find xs first v) xs)"
proof (induction xs first v rule: std_find.induct)
  case (1 xs first v)
  show ?case
  proof (cases "first < length xs \<and> xs ! first \<noteq> v")
    case True
    then have f: "std_find xs first v = std_find xs (Suc first) v"
      by (subst std_find.simps) simp
    have le: "Suc first \<le> std_find xs (Suc first) v"
      using std_find_bounds[of "Suc first" xs v] True by simp
    have d: "drop first xs = xs ! first # drop (Suc first) xs"
      using True by (simp add: Cons_nth_drop_Suc)
    have "std_find xs (Suc first) v - first = Suc (std_find xs (Suc first) v - Suc first)"
      using le by simp
    then show ?thesis
      using "1.IH"[OF True] True f d by simp
  next
    case False
    have "std_find xs first v = first"
      by (subst std_find.simps) (simp only: False if_False)
    then show ?thesis by simp
  qed
qed

lemma std_find_hit:
  "std_find xs first v < length xs \<Longrightarrow> xs ! std_find xs first v = v"
proof (induction xs first v rule: std_find.induct)
  case (1 xs first v)
  show ?case
  proof (cases "first < length xs \<and> xs ! first \<noteq> v")
    case True
    then have f: "std_find xs first v = std_find xs (Suc first) v"
      by (subst std_find.simps) simp
    show ?thesis using "1.IH"[OF True] "1.prems" f by simp
  next
    case False
    have "std_find xs first v = first"
      by (subst std_find.simps) (simp only: False if_False)
    then show ?thesis using False "1.prems" by simp
  qed
qed

lemma remove_loop_correct:
  "first \<le> i \<Longrightarrow> i < length xs \<Longrightarrow> remove_loop xs first i v = (ys, p) \<Longrightarrow>
   take p ys = take first xs @ filter (\<lambda>y. y \<noteq> v) (drop (Suc i) xs)"
proof (induction xs first i v arbitrary: ys p rule: remove_loop.induct)
  case (1 xs first i v)
  show ?case
  proof (cases "Suc i < length xs")
    case False
    then have "remove_loop xs first i v = (xs, first)"
      by (subst remove_loop.simps) simp
    with "1.prems" False show ?thesis by simp
  next
    case True
    then have d: "drop (Suc i) xs = xs ! Suc i # drop (Suc (Suc i)) xs"
      by (simp add: Cons_nth_drop_Suc)
    show ?thesis
    proof (cases "xs ! Suc i \<noteq> v")
      case keep: True
      let ?xs' = "xs[first := xs ! Suc i]"
      have r: "remove_loop ?xs' (Suc first) (Suc i) v = (ys, p)"
        using "1.prems"(3) True keep by (subst (asm) remove_loop.simps) simp
      have "take p ys = take (Suc first) ?xs' @ filter (\<lambda>y. y \<noteq> v) (drop (Suc (Suc i)) ?xs')"
        using "1.IH"(1)[OF True keep _ _ r] "1.prems"(1) True by simp
      moreover have "take (Suc first) ?xs' = take first xs @ [xs ! Suc i]"
        using "1.prems"(1,2) by (simp add: take_Suc_conv_app_nth)
      moreover have "drop (Suc (Suc i)) ?xs' = drop (Suc (Suc i)) xs"
        using "1.prems"(1) by simp
      ultimately show ?thesis using d keep by simp
    next
      case False
      have r: "remove_loop xs first (Suc i) v = (ys, p)"
        using "1.prems"(3) True False by (subst (asm) remove_loop.simps) simp
      have "take p ys = take first xs @ filter (\<lambda>y. y \<noteq> v) (drop (Suc (Suc i)) xs)"
        using "1.IH"(2)[OF True _ _ _ r] False "1.prems"(1) True by simp
      then show ?thesis using d False by simp
    qed
  qed
qed

lemma std_remove_erase:
  "std_remove xs v = (ys, p) \<Longrightarrow> erase_to_end ys p = filter (\<lambda>y. y \<noteq> v) xs"
proof -
  assume a: "std_remove xs v = (ys, p)"
  let ?f = "std_find xs 0 v"
  have pre: "filter (\<lambda>y. y \<noteq> v) xs = take ?f xs @ filter (\<lambda>y. y \<noteq> v) (drop ?f xs)"
    using std_find_prefix[of 0 xs v] by simp
  have le: "?f \<le> length xs" using std_find_bounds[of 0 xs v] by simp
  show ?thesis
  proof (cases "?f = length xs")
    case True
    then have "ys = xs" "p = length xs" using a by (auto simp add: std_remove_def Let_def)
    then show ?thesis using pre True by (simp add: erase_to_end_def)
  next
    case False
    then have lt: "?f < length xs" using le by simp
    have r: "remove_loop xs ?f ?f v = (ys, p)" using a False by (simp add: std_remove_def Let_def)
    have "take p ys = take ?f xs @ filter (\<lambda>y. y \<noteq> v) (drop (Suc ?f) xs)"
      using remove_loop_correct[OF _ lt r] by simp
    moreover have "drop ?f xs = xs ! ?f # drop (Suc ?f) xs"
      using lt by (simp add: Cons_nth_drop_Suc)
    moreover have "xs ! ?f = v" using lt by (rule std_find_hit)
    ultimately show ?thesis using pre by (simp add: erase_to_end_def)
  qed
qed

lemma items_removeItem: "items (removeItem x v) = filter (\<lambda>y. y \<noteq> x) (items v)"
proof (cases "std_remove (items v) x")
  case (Pair ys p)
  then show ?thesis using std_remove_erase[OF Pair] by (simp add: removeItem_def)
qed

text \<open>
  Claim C9. \<open>removeItem(x)\<close> leaves exactly the original sequence with every occurrence
  of \<open>x\<close> deleted, the remaining occurrences in their original relative order; the
  backend and the render mode are untouched.
\<close>

theorem removeItem_deletes_all_keeps_order:
  "items (removeItem x v) = filter (\<lambda>y. y \<noteq> x) (items v)
   \<and> backend (removeItem x v) = backend v \<and> renderMode (removeItem x v) = renderMode v"
proof (cases "std_remove (items v) x")
  case (Pair ys p)
  then show ?thesis using std_remove_erase[OF Pair] by (simp add: removeItem_def)
qed

text \<open>
  Claim C5, as amended. \<open>addItem(x)\<close> followed by \<open>removeItem(x)\<close> leaves the original
  sequence with every occurrence of \<open>x\<close> deleted; this is the sequence from before the
  \<open>addItem\<close> call exactly when \<open>x\<close> did not occur in it.
\<close>

theorem addItem_removeItem_roundtrip:
  "items (removeItem x (addItem x v)) = filter (\<lambda>y. y \<noteq> x) (items v)
   \<and> (items (removeItem x (addItem x v)) = items v) = (x \<notin> set (items v))"
  by (auto simp add: items_removeItem addItem_def filter_id_conv)

text \<open>
  Claim C5 as it is written fails when \<open>x\<close> already occurred: the view holds \<open>[7]\<close>,
  \<open>addItem(7)\<close> makes it \<open>[7, 7]\<close>, and \<open>removeItem(7)\<close> erases both occurrences.
\<close>

theorem addItem_removeItem_duplicate_counterexample:
  "items view_dup = [7] \<and> items (removeItem 7 (addItem 7 view_dup)) = []"
  by (simp add: items_removeItem addItem_def view_dup_def)

lemma render_loop_frame:
  "drawCalls (render_loop draw its v) = drawCalls v @ its
   \<and> items (render_loop draw its v) = items v
   \<and> renderMode (render_loop draw its v) = renderMode v
   \<and> backend (render_loop draw its v) = foldl (\<lambda>b it. draw it b) (backend v) its"
  by (induction its arbitrary: v) simp_all

text \<open>
  Claim C6. \<open>render()\<close> calls \<open>draw\<close> once for every position of the paint-order
  sequence, from the first position to the last: the \<open>draw\<close> calls of the pass are the
  sequence itself, a duplicated reference being drawn once per occurrence, so a view of
  \<open>N\<close> occurrences makes \<open>N\<close> calls. The sequence is left as it was, and the backend
  is the one that the \<open>draw\<close> calls produce in that order.
\<close>

theorem render_draws_each_occurrence_in_order:
  "drawCalls (render draw v) = drawCalls v @ items v
   \<and> length (drawCalls (render draw v)) = length (drawCalls v) + length (items v)
   \<and> items (render draw v) = items v
   \<and> backend (render draw v) = foldl (\<lambda>b it. draw it b) (backend v) (items v)"
  by (simp add: render_def render_loop_frame)

section \<open>The event manager: the loop and its run\<close>

lemma foldl_queueEvent:
  "foldl (\<lambda>w' e. queueEvent e w') w evs =
     w\<lparr>eventQueue := eventQueue w @ evs, queued := queued w @ evs\<rparr>"
  by (induction evs arbitrary: w) (simp_all add: queueEvent_def)

lemma call_eq:
  "call l e w =
     (case snd l e (itemState w) (client w) of (st, c, evs) \<Rightarrow>
        w\<lparr>eventQueue := eventQueue w @ evs, itemState := st, client := c,
          history := history w @ [Called l e], queued := queued w @ evs\<rparr>)"
  by (simp add: call_def foldl_queueEvent split: prod.splits)

lemma stateRule_frame:
  "listeners (stateRule e it w) = listeners w"
  "eventQueue (stateRule e it w) = eventQueue w"
  "queued (stateRule e it w) = queued w"
  "client (stateRule e it w) = client w"
  by (simp_all add: stateRule_def setState_def split: option.splits)

lemma stateRule_history: "history (stateRule e it w) = history w @ rule_actions e it"
  by (simp add: stateRule_def rule_actions_def setState_def split: option.splits)

lemma notify_frame:
  "listeners (notify e l w) = listeners w"
  "history (notify e l w) = history w @ Called l e # rule_actions e (fst l)"
  "eventQueue (notify e l w) = eventQueue w @ snd (snd (snd l e (itemState w) (client w)))"
  "queued (notify e l w) = queued w @ snd (snd (snd l e (itemState w) (client w)))"
  by (simp_all add: notify_def stateRule_frame stateRule_history call_eq split: prod.splits)

lemma listener_loop_append:
  "listener_loop e (xs @ ys) w = listener_loop e ys (listener_loop e xs w)"
  by (induction xs arbitrary: w) simp_all

lemma listener_loop_listeners: "listeners (listener_loop e ls w) = listeners w"
  by (induction ls arbitrary: w) (simp_all add: notify_frame)

lemma listener_loop_history:
  "history (listener_loop e ls w) = history w @ event_actions ls e"
  by (induction ls arbitrary: w) (simp_all add: notify_frame event_actions_def)

lemma listener_loop_queue:
  "\<exists>evs. eventQueue (listener_loop e ls w) = eventQueue w @ evs
       \<and> queued (listener_loop e ls w) = queued w @ evs"
proof (induction ls arbitrary: w)
  case Nil
  then show ?case by simp
next
  case (Cons l ls)
  obtain evs where
    "eventQueue (listener_loop e ls (notify e l w)) = eventQueue (notify e l w) @ evs"
    "queued (listener_loop e ls (notify e l w)) = queued (notify e l w) @ evs"
    using Cons.IH by blast
  then show ?case by (simp add: notify_frame)
qed

lemma loop_body_step:
  assumes "eventQueue w = e # rest"
  shows "listeners (loop_body w) = listeners w"
    and "history (loop_body w) = history w @ event_actions (listeners w) e"
    and "\<exists>evs. eventQueue (loop_body w) = rest @ evs \<and> queued (loop_body w) = queued w @ evs"
proof -
  show "listeners (loop_body w) = listeners w"
    using assms by (simp add: loop_body_def listener_loop_listeners)
  show "history (loop_body w) = history w @ event_actions (listeners w) e"
    using assms by (simp add: loop_body_def listener_loop_history)
  show "\<exists>evs. eventQueue (loop_body w) = rest @ evs \<and> queued (loop_body w) = queued w @ evs"
    using assms listener_loop_queue[of e "listeners w" "w\<lparr>eventQueue := rest\<rparr>"]
    by (simp add: loop_body_def)
qed

lemma dispatch_empty: "eventQueue w = [] \<Longrightarrow> dispatchEvents w = Some w"
  by (subst dispatchEvents.simps) simp

lemma dispatch_step: "eventQueue w \<noteq> [] \<Longrightarrow> dispatchEvents w = dispatchEvents (loop_body w)"
  by (subst dispatchEvents.simps) simp

lemma dispatch_invariant:
  assumes d: "dispatchEvents w = Some w'"
    and init: "I w"
    and step: "\<And>u. I u \<Longrightarrow> eventQueue u \<noteq> [] \<Longrightarrow> I (loop_body u)"
  shows "I w' \<and> eventQueue w' = []"
proof -
  have "I w \<longrightarrow> I w' \<and> eventQueue w' = []"
  proof (rule dispatchEvents.raw_induct[where P = "\<lambda>u u'. I u \<longrightarrow> I u' \<and> eventQueue u' = []", OF _ d])
    fix f and u u' :: "'a world"
    assume ih: "\<And>v v'. f v = Some v' \<Longrightarrow> I v \<longrightarrow> I v' \<and> eventQueue v' = []"
      and eq: "(if eventQueue u = [] then Some u else f (loop_body u)) = Some u'"
    show "I u \<longrightarrow> I u' \<and> eventQueue u' = []"
    proof (cases "eventQueue u = []")
      case True
      then show ?thesis using eq by auto
    next
      case False
      then have "f (loop_body u) = Some u'" using eq by simp
      then show ?thesis using ih step False by blast
    qed
  qed
  then show ?thesis using init by simp
qed

lemma run_Suc: "run (Suc n) w = run n (iteration w)"
  by (simp add: run_def funpow_swap1)

lemma run_Suc_right: "run (Suc n) w = iteration (run n w)"
  by (simp add: run_def)

lemma run_0: "run 0 w = w"
  by (simp add: run_def)

lemma run_empty: "eventQueue w = [] \<Longrightarrow> run n w = w"
  by (induction n) (simp_all add: run_0 run_Suc iteration_def)

lemma run_dispatch: "eventQueue (run k w) = [] \<Longrightarrow> dispatchEvents w = Some (run k w)"
proof (induction k arbitrary: w)
  case 0
  then show ?case by (simp add: run_0 dispatch_empty)
next
  case (Suc k)
  show ?case
  proof (cases "eventQueue w = []")
    case True
    then show ?thesis by (simp add: run_empty dispatch_empty)
  next
    case False
    then have "iteration w = loop_body w" by (simp add: iteration_def)
    then show ?thesis using Suc False by (simp add: run_Suc dispatch_step)
  qed
qed

lemma run_count:
  "(\<forall>k<n. eventQueue (run k w) \<noteq> []) \<Longrightarrow>
   length (eventQueue (run n w)) + n + length (queued w)
     = length (eventQueue w) + length (queued (run n w))"
proof (induction n)
  case 0
  then show ?case by (simp add: run_0)
next
  case (Suc n)
  let ?u = "run n w"
  have ne: "eventQueue ?u \<noteq> []" using Suc.prems by simp
  then obtain e rest where q: "eventQueue ?u = e # rest" by (cases "eventQueue ?u") auto
  obtain evs where evs: "eventQueue (loop_body ?u) = rest @ evs"
      "queued (loop_body ?u) = queued ?u @ evs"
    using loop_body_step(3)[OF q] by blast
  have "run (Suc n) w = loop_body ?u" using ne by (simp add: run_Suc_right iteration_def)
  moreover have "length (eventQueue ?u) + n + length (queued w)
     = length (eventQueue w) + length (queued ?u)"
    using Suc by simp
  ultimately show ?case using q evs by simp
qed

lemma finitely_terminates:
  assumes "enqueues_finitely w"
  shows "\<exists>k. eventQueue (run k w) = []"
proof (rule ccontr)
  assume "\<not> (\<exists>k. eventQueue (run k w) = [])"
  then have all: "\<And>n. \<forall>k<n. eventQueue (run k w) \<noteq> []" by simp
  obtain B where B: "\<And>n. length (queued (run n w)) \<le> B"
    using assms by (auto simp: enqueues_finitely_def)
  let ?n = "Suc (length (eventQueue w) + B)"
  have "length (eventQueue (run ?n w)) + ?n + length (queued w)
     = length (eventQueue w) + length (queued (run ?n w))"
    using run_count[OF all] .
  then show False using B[of ?n] by simp
qed

lemma iteration_queued_mono: "length (queued w) \<le> length (queued (iteration w))"
proof (cases "eventQueue w")
  case Nil
  then show ?thesis by (simp add: iteration_def)
next
  case (Cons e rest)
  then show ?thesis using loop_body_step(3)[OF Cons] by (auto simp: iteration_def)
qed

lemma run_queued_mono: "length (queued (run n w)) \<le> length (queued (run (n + m) w))"
proof (induction m)
  case 0
  then show ?case by simp
next
  case (Suc m)
  then show ?case
    using iteration_queued_mono[of "run (n + m) w"] by (simp add: run_Suc_right)
qed

lemma run_stays: "eventQueue (run k w) = [] \<Longrightarrow> run (k + m) w = run k w"
  by (induction m) (simp_all add: run_Suc_right iteration_def)

lemma terminates_finitely:
  assumes "eventQueue (run k w) = []"
  shows "enqueues_finitely w"
proof -
  have "length (queued (run n w)) \<le> length (queued (run k w))" for n
  proof (cases "n \<le> k")
    case True
    then show ?thesis using run_queued_mono[of n w "k - n"] by simp
  next
    case False
    then show ?thesis using run_stays[OF assms, of "n - k"] by simp
  qed
  then show ?thesis unfolding enqueues_finitely_def by blast
qed

lemma dispatch_history:
  assumes d: "dispatchEvents w = Some w'"
  shows "listeners w' = listeners w \<and> eventQueue w' = []
       \<and> queued w' = queued w @ enqueued_since w w'
       \<and> history w' = history w
           @ concat (map (event_actions (listeners w)) (eventQueue w @ enqueued_since w w'))"
proof -
  let ?I = "\<lambda>u. listeners u = listeners w \<and>
     (\<exists>evs dn. queued u = queued w @ evs \<and> eventQueue w @ evs = dn @ eventQueue u
        \<and> history u = history w @ concat (map (event_actions (listeners w)) dn))"
  have init: "?I w" by simp
  have step: "?I (loop_body u)" if I: "?I u" and ne: "eventQueue u \<noteq> []" for u
  proof -
    obtain e rest where q: "eventQueue u = e # rest" using ne by (cases "eventQueue u") auto
    obtain evs dn where u: "queued u = queued w @ evs" "eventQueue w @ evs = dn @ eventQueue u"
        "history u = history w @ concat (map (event_actions (listeners w)) dn)"
      using I by blast
    obtain evs' where b: "eventQueue (loop_body u) = rest @ evs'"
        "queued (loop_body u) = queued u @ evs'"
      using loop_body_step(3)[OF q] by blast
    have l: "listeners (loop_body u) = listeners w"
      using loop_body_step(1)[OF q] I by simp
    have a: "queued (loop_body u) = queued w @ (evs @ evs')" using b u by simp
    have c: "eventQueue w @ (evs @ evs') = (dn @ [e]) @ eventQueue (loop_body u)"
      using u q b by simp
    have h: "history (loop_body u)
        = history w @ concat (map (event_actions (listeners w)) (dn @ [e]))"
      using loop_body_step(1,2)[OF q] u I by simp
    have "\<exists>evs dn. queued (loop_body u) = queued w @ evs
        \<and> eventQueue w @ evs = dn @ eventQueue (loop_body u)
        \<and> history (loop_body u) = history w @ concat (map (event_actions (listeners w)) dn)"
      using a c h by (intro exI[of _ "evs @ evs'"] exI[of _ "dn @ [e]"] conjI)
    then show ?thesis using l by simp
  qed
  have fin: "?I w' \<and> eventQueue w' = []"
    using d init step by (rule dispatch_invariant[where I = ?I])
  then obtain evs dn where f: "queued w' = queued w @ evs" "eventQueue w @ evs = dn @ eventQueue w'"
        "history w' = history w @ concat (map (event_actions (listeners w)) dn)"
    by blast
  have "enqueued_since w w' = evs" using f by (simp add: enqueued_since_def)
  then show ?thesis using f fin by simp
qed

lemma type_ZMouseEvent_ctor [simp]: "type (ZMouseEvent_ctor t pos btn md) = t"
  by (simp add: ZMouseEvent_ctor_def ZEvent_ctor_def ZEvent.defs ZMouseEvent.defs)

lemmas step_defs = queueEvent_def registerListener_def fresh_def loop_body_def notify_def
  call_eq stateRule_def setState_def


subsection \<open>The pass as a sequence of deliveries\<close>

lemma notify_outside: "outside (notify e l w) = deliver (outside w) (e, l)"
proof (cases l)
  case (Pair it cb)
  obtain st c evs where r: "cb e (itemState w) (client w) = (st, c, evs)"
    by (cases "cb e (itemState w) (client w)") auto
  show ?thesis
    using r Pair
    by (simp add: outside_def notify_def call_eq stateRule_def rule_state_def setState_def
        split: option.splits)
qed

lemma notify_emitted:
  "eventQueue (notify e l w) = eventQueue w @ emitted (outside w) [(e, l)]
   \<and> queued (notify e l w) = queued w @ emitted (outside w) [(e, l)]"
proof (cases l)
  case (Pair it cb)
  obtain st c evs where r: "cb e (itemState w) (client w) = (st, c, evs)"
    by (cases "cb e (itemState w) (client w)") auto
  show ?thesis using r Pair by (simp add: notify_frame outside_def)
qed

lemma emitted_append:
  "emitted s (ds @ ds') = emitted s ds @ emitted (foldl deliver s ds) ds'"
proof (induction ds arbitrary: s)
  case Nil
  then show ?case by simp
next
  case (Cons d ds)
  obtain st c where s: "s = (st, c)" by (cases s)
  obtain e it cb where d: "d = (e, (it, cb))" by (cases d) auto
  show ?case using Cons.IH by (simp add: s d split: prod.splits)
qed

lemma deliveries_snoc: "deliveries ls (es @ [e]) = deliveries ls es @ map (Pair e) ls"
  by (simp add: deliveries_def)

lemma listener_loop_outside:
  "outside (listener_loop e xs v) = foldl deliver (outside v) (map (Pair e) xs)"
  by (induction xs arbitrary: v) (simp_all add: notify_outside)

lemma listener_loop_emitted:
  "eventQueue (listener_loop e xs v) = eventQueue v @ emitted (outside v) (map (Pair e) xs)
   \<and> queued (listener_loop e xs v) = queued v @ emitted (outside v) (map (Pair e) xs)"
proof (induction xs arbitrary: v)
  case Nil
  then show ?case by simp
next
  case (Cons l xs)
  have "emitted (outside v) (map (Pair e) (l # xs))
      = emitted (outside v) [(e, l)] @ emitted (deliver (outside v) (e, l)) (map (Pair e) xs)"
    using emitted_append[of "outside v" "[(e, l)]" "map (Pair e) xs"] by simp
  then show ?case using Cons.IH[of "notify e l v"] notify_emitted[of e l v]
    by (simp add: notify_outside)
qed

lemma loop_body_outside:
  assumes "eventQueue u = e # rest"
  shows "outside (loop_body u) = foldl deliver (outside u) (map (Pair e) (listeners u))"
    and "eventQueue (loop_body u) = rest @ emitted (outside u) (map (Pair e) (listeners u))"
    and "queued (loop_body u) = queued u @ emitted (outside u) (map (Pair e) (listeners u))"
  using assms listener_loop_outside[of e "listeners u" "u\<lparr>eventQueue := rest\<rparr>"]
    listener_loop_emitted[of e "listeners u" "u\<lparr>eventQueue := rest\<rparr>"]
  by (simp_all add: loop_body_def outside_def)

lemma run_state_aux:
  "\<exists>evs all. all = eventQueue w @ evs
     \<and> queued (run n w) = queued w @ evs
     \<and> eventQueue (run n w) = drop n all
     \<and> listeners (run n w) = listeners w
     \<and> outside (run n w) = foldl deliver (outside w) (deliveries (listeners w) (take n all))
     \<and> evs = emitted (outside w) (deliveries (listeners w) (take n all))
     \<and> history (run n w) = history w @ concat (map (event_actions (listeners w)) (take n all))"
proof (induction n)
  case 0
  show ?case by (simp add: run_0 deliveries_def)
next
  case (Suc n)
  let ?u = "run n w"
  let ?ls = "listeners w"
  obtain evs all where a: "all = eventQueue w @ evs"
    and q: "queued ?u = queued w @ evs"
    and d: "eventQueue ?u = drop n all"
    and l: "listeners ?u = ?ls"
    and o: "outside ?u = foldl deliver (outside w) (deliveries ?ls (take n all))"
    and m: "evs = emitted (outside w) (deliveries ?ls (take n all))"
    and h: "history ?u = history w @ concat (map (event_actions ?ls) (take n all))"
    using Suc.IH by blast
  show ?case
  proof (cases "eventQueue ?u")
    case Nil
    then have u: "run (Suc n) w = ?u" by (simp add: run_Suc_right iteration_def)
    have "drop n all = []" using Nil d by simp
    then have len: "length all \<le> n" by (simp only: drop_eq_Nil)
    then have dr: "drop (Suc n) all = []" and tk: "take (Suc n) all = take n all" by simp_all
    show ?thesis unfolding u
    proof (rule exI[of _ evs], rule exI[of _ all], intro conjI)
      show "all = eventQueue w @ evs" by (rule a)
      show "queued ?u = queued w @ evs" by (rule q)
      show "eventQueue ?u = drop (Suc n) all" using Nil dr by simp
      show "listeners ?u = ?ls" by (rule l)
      show "outside ?u = foldl deliver (outside w) (deliveries ?ls (take (Suc n) all))"
        using o by (simp only: tk)
      show "evs = emitted (outside w) (deliveries ?ls (take (Suc n) all))"
        using m by (simp only: tk)
      show "history ?u = history w @ concat (map (event_actions ?ls) (take (Suc n) all))"
        using h by (simp only: tk)
    qed
  next
    case (Cons e rest)
    then have u: "run (Suc n) w = loop_body ?u" by (simp add: run_Suc_right iteration_def)
    have dr: "drop n all = e # rest" using Cons d by simp
    then have lt: "n < length all" by (cases "n < length all") auto
    have nth: "all ! n = e" using dr lt by (metis nth_via_drop)
    have rest: "drop (Suc n) all = rest" using dr by (metis drop_Suc tl_drop list.sel(3))
    have tk: "take (Suc n) all = take n all @ [e]"
      using lt nth by (simp add: take_Suc_conv_app_nth)
    define new where "new = emitted (outside ?u) (map (Pair e) ?ls)"
    define all' where "all' = all @ new"
    have tk': "take (Suc n) all' = take n all @ [e]" using tk lt by (simp add: all'_def)
    have dr': "drop (Suc n) all' = rest @ new" using rest lt by (simp add: all'_def)
    show ?thesis unfolding u
    proof (rule exI[of _ "evs @ new"], rule exI[of _ all'], intro conjI)
      show "all' = eventQueue w @ evs @ new" by (simp add: all'_def a)
      show "queued (loop_body ?u) = queued w @ evs @ new"
        using loop_body_outside(3)[OF Cons] q l by (simp add: new_def)
      show "eventQueue (loop_body ?u) = drop (Suc n) all'"
        using loop_body_outside(2)[OF Cons] l by (simp add: dr' new_def)
      show "listeners (loop_body ?u) = ?ls"
        using loop_body_step(1)[OF Cons] l by simp
      show "outside (loop_body ?u) = foldl deliver (outside w) (deliveries ?ls (take (Suc n) all'))"
        using loop_body_outside(1)[OF Cons] l o by (simp add: tk' deliveries_snoc)
      show "evs @ new = emitted (outside w) (deliveries ?ls (take (Suc n) all'))"
        using m o l by (simp add: tk' deliveries_snoc emitted_append new_def)
      show "history (loop_body ?u)
        = history w @ concat (map (event_actions ?ls) (take (Suc n) all'))"
        using loop_body_step(2)[OF Cons] l h by (simp add: tk')
    qed
  qed
qed

lemma run_state:
  "queued (run n w) = queued w @ enqueued_since w (run n w)
   \<and> listeners (run n w) = listeners w
   \<and> eventQueue (run n w) = drop n (eventQueue w @ enqueued_since w (run n w))
   \<and> outside (run n w)
       = foldl deliver (outside w)
           (deliveries (listeners w) (take n (eventQueue w @ enqueued_since w (run n w))))
   \<and> enqueued_since w (run n w)
       = emitted (outside w)
           (deliveries (listeners w) (take n (eventQueue w @ enqueued_since w (run n w))))
   \<and> history (run n w)
       = history w
         @ concat (map (event_actions (listeners w))
             (take n (eventQueue w @ enqueued_since w (run n w))))"
proof -
  obtain evs all where a: "all = eventQueue w @ evs"
    and q: "queued (run n w) = queued w @ evs"
    and r: "eventQueue (run n w) = drop n all"
      "listeners (run n w) = listeners w"
      "outside (run n w) = foldl deliver (outside w) (deliveries (listeners w) (take n all))"
      "evs = emitted (outside w) (deliveries (listeners w) (take n all))"
      "history (run n w) = history w @ concat (map (event_actions (listeners w)) (take n all))"
    using run_state_aux[of w n] by blast
  have e: "enqueued_since w (run n w) = evs" using q by (simp add: enqueued_since_def)
  have a': "eventQueue w @ enqueued_since w (run n w) = all" using a e by simp
  show ?thesis unfolding a' using q r e by (intro conjI) simp_all
qed

lemma dispatch_run:
  assumes "dispatchEvents w = Some w'"
  shows "\<exists>k. w' = run k w \<and> eventQueue (run k w) = []"
proof -
  let ?I = "\<lambda>u. \<exists>k. u = run k w"
  have init: "?I w" by (rule exI[of _ 0]) (simp add: run_0)
  have step: "?I (loop_body u)" if I: "?I u" and ne: "eventQueue u \<noteq> []" for u
  proof -
    obtain k where "u = run k w" using I by blast
    then have "loop_body u = run (Suc k) w" using ne by (simp add: run_Suc_right iteration_def)
    then show ?thesis by blast
  qed
  have "?I w' \<and> eventQueue w' = []"
    using assms init step by (rule dispatch_invariant[where I = ?I])
  then show ?thesis by auto
qed

lemma pass_state:
  assumes d: "dispatchEvents w = Some w'"
  shows "eventQueue w' = [] \<and> listeners w' = listeners w
       \<and> outside w'
           = foldl deliver (outside w)
               (deliveries (listeners w) (eventQueue w @ enqueued_since w w'))
       \<and> enqueued_since w w'
           = emitted (outside w)
               (deliveries (listeners w) (eventQueue w @ enqueued_since w w'))"
proof -
  obtain k where k: "w' = run k w" and e: "eventQueue (run k w) = []"
    using dispatch_run[OF d] by blast
  note r = run_state[of k w]
  have "drop k (eventQueue w @ enqueued_since w (run k w)) = []" using r e by simp
  then have "length (eventQueue w @ enqueued_since w (run k w)) \<le> k"
    by (simp only: drop_eq_Nil)
  then have t: "take k (eventQueue w @ enqueued_since w (run k w))
      = eventQueue w @ enqueued_since w (run k w)"
    by (rule take_all)
  show ?thesis using r e unfolding t k by simp
qed











lemma filter_Called_rule_actions: "filter is_Called (rule_actions e it) = []"
  by (simp add: rule_actions_def split: option.splits)

lemma filter_Called_event_actions:
  "filter is_Called (event_actions ls e) = map (\<lambda>l. Called l e) ls"
  by (induction ls) (simp_all add: event_actions_def filter_Called_rule_actions)

lemmas world_defs = behind_world_def release_two_def release_none_def two_recorders_def
  relay_world_def two_observers_def no_listener_def echo_world_def key_world_def pressed_def

lemmas event_defs = click_def keyPress_def release_def

lemma is_mouse_of_events [simp]:
  "is_mouse_of t click = (t = MouseClick)"
  "is_mouse_of t release = (t = MouseRelease)"
  "is_mouse_of t keyPress = False"
  by (auto simp add: is_mouse_of_def event_defs)

lemma filter_Called_deliveries:
  "filter is_Called (concat (map (event_actions ls) es))
     = map (\<lambda>d. Called (snd d) (fst d)) (deliveries ls es)"
  by (induction es) (simp_all add: filter_Called_event_actions deliveries_def comp_def)

section \<open>The event manager: the state rule, the calls and termination\<close>









lemma finitely_returns:
  assumes "enqueues_finitely w"
  shows "\<exists>w'. dispatchEvents w = Some w'"
proof -
  obtain k where "eventQueue (run k w) = []"
    using finitely_terminates[OF assms] by blast
  then show ?thesis using run_dispatch by blast
qed

text \<open>
  Claim C7. Whatever the queue holds and whatever the listeners are, if the callbacks
  enqueue only finitely many events during the pass then \<open>dispatchEvents\<close> returns,
  the queue is empty at return, and the events enqueued during the pass have been
  dispatched too: the actions of the pass are those for the initial queue followed by
  the events enqueued since.
\<close>

theorem dispatch_terminates_with_empty_queue:
  assumes "enqueues_finitely w"
  shows "\<exists>w'. dispatchEvents w = Some w' \<and> eventQueue w' = []
           \<and> queued w' = queued w @ enqueued_since w w'
           \<and> history w' = history w
               @ concat (map (event_actions (listeners w)) (eventQueue w @ enqueued_since w w'))"
proof -
  obtain w' where d: "dispatchEvents w = Some w'"
    using finitely_returns[OF assms] by blast
  show ?thesis using d dispatch_history[OF d] by simp
qed

lemma echo_world_run:
  "run (Suc (Suc 0)) echo_world =
     \<lparr>eventQueue = [], listeners = [(0, echo)], itemState = (\<lambda>it. Normal)(0 := Pressed),
       client = (), history = [Called (0, echo) click, SetState 0 Pressed,
                               Called (0, echo) keyPress],
       queued = [click, keyPress]\<rparr>"
  by (simp add: run_Suc run_0 iteration_def echo_world_def step_defs echo_def click_def
      keyPress_def)

lemma echo_world_finitely: "enqueues_finitely echo_world"
  by (rule terminates_finitely[of "Suc (Suc 0)"]) (simp add: echo_world_run)

lemma echo_world_dispatch: "dispatchEvents echo_world = Some (run (Suc (Suc 0)) echo_world)"
  by (rule run_dispatch) (simp add: echo_world_run)

text \<open>The theorem at a pass whose callback enqueues one more event.\<close>

theorem dispatch_terminates_with_empty_queue_witness:
  "enqueues_finitely echo_world
   \<and> map_option eventQueue (dispatchEvents echo_world) = Some []
   \<and> map_option queued (dispatchEvents echo_world) = Some [click, keyPress]"
  using dispatch_terminates_with_empty_queue[OF echo_world_finitely]
  by (simp add: echo_world_finitely echo_world_dispatch echo_world_run)

text \<open>
  Claim C3. A sequence of \<open>queueEvent\<close> calls appends its events to the queue in call
  order. For every queue and every listener registry, all along the pass: after \<open>n\<close>
  iterations of the loop the first \<open>n\<close> events of the pass (all of them, if there are
  fewer) have been delivered and the others wait in the queue in their order; the item
  states and the client state are those that result from applying the callbacks, one
  delivery per event and listener, event by event in queue order and listener by
  listener in registration order; the events enqueued since are those the callbacks
  passed to \<open>queueEvent\<close>; and the manager's callback invocations are these deliveries,
  each once, in this order. Once the queue is empty \<open>dispatchEvents\<close> has returned that
  world, and whenever \<open>dispatchEvents\<close> returns, the same holds for all events of the
  pass.
\<close>

theorem dispatch_calls_each_listener_once_per_event_in_order:
  fixes w :: "'c world"
  shows "eventQueue (foldl (\<lambda>u e. queueEvent e u) w es) = eventQueue w @ es
       \<and> (\<forall>n. eventQueue (run n w) = drop n (pass_events w (run n w))
             \<and> outside (run n w)
                 = foldl deliver (outside w)
                     (deliveries (listeners w) (take n (pass_events w (run n w))))
             \<and> enqueued_since w (run n w)
                 = emitted (outside w)
                     (deliveries (listeners w) (take n (pass_events w (run n w))))
             \<and> filter is_Called (history (run n w))
                 = filter is_Called (history w)
                   @ map (\<lambda>d. Called (snd d) (fst d))
                       (deliveries (listeners w) (take n (pass_events w (run n w))))
             \<and> (eventQueue (run n w) = [] \<longrightarrow> dispatchEvents w = Some (run n w)))
       \<and> (\<forall>w'. dispatchEvents w = Some w' \<longrightarrow>
             eventQueue w' = []
             \<and> outside w' = foldl deliver (outside w) (pass_deliveries w w')
             \<and> enqueued_since w w' = emitted (outside w) (pass_deliveries w w')
             \<and> filter is_Called (history w')
                 = filter is_Called (history w)
                   @ map (\<lambda>d. Called (snd d) (fst d)) (pass_deliveries w w'))"
proof (intro conjI allI impI)
  show "eventQueue (foldl (\<lambda>u e. queueEvent e u) w es) = eventQueue w @ es"
    by (simp add: foldl_queueEvent)
next
  fix n
  note r = run_state[of n w]
  show "eventQueue (run n w) = drop n (pass_events w (run n w))"
    using r by (simp add: pass_events_def)
  show "outside (run n w)
      = foldl deliver (outside w) (deliveries (listeners w) (take n (pass_events w (run n w))))"
    using r unfolding pass_events_def by blast
  show "enqueued_since w (run n w)
      = emitted (outside w) (deliveries (listeners w) (take n (pass_events w (run n w))))"
    using r unfolding pass_events_def by blast
  have "history (run n w) = history w
      @ concat (map (event_actions (listeners w)) (take n (pass_events w (run n w))))"
    using r unfolding pass_events_def by blast
  then show "filter is_Called (history (run n w))
      = filter is_Called (history w)
        @ map (\<lambda>d. Called (snd d) (fst d))
            (deliveries (listeners w) (take n (pass_events w (run n w))))"
    by (simp only: filter_append filter_Called_deliveries)
  show "dispatchEvents w = Some (run n w)" if "eventQueue (run n w) = []"
    using that by (rule run_dispatch)
next
  fix w' assume d: "dispatchEvents w = Some w'"
  note p = pass_state[OF d]
  show "eventQueue w' = []" using p by simp
  show "outside w' = foldl deliver (outside w) (pass_deliveries w w')"
    using p by (simp add: pass_deliveries_def pass_events_def)
  show "enqueued_since w w' = emitted (outside w) (pass_deliveries w w')"
    using p unfolding pass_deliveries_def pass_events_def by blast
  have "history w' = history w
      @ concat (map (event_actions (listeners w)) (eventQueue w @ enqueued_since w w'))"
    using dispatch_history[OF d] by simp
  then show "filter is_Called (history w')
      = filter is_Called (history w)
        @ map (\<lambda>d. Called (snd d) (fst d)) (pass_deliveries w w')"
    unfolding pass_deliveries_def pass_events_def
    by (simp only: filter_append filter_Called_deliveries)
qed

lemma recorded_run:
  "dispatchEvents recorded =
     Some \<lparr>eventQueue = [], listeners = [(0, recorder 0), (1, recorder 1)],
       itemState = (\<lambda>it. Normal)(0 := Pressed, 1 := Pressed),
       client = [(0, click), (1, click), (0, keyPress), (1, keyPress)],
       history = [Called (0, recorder 0) click, SetState 0 Pressed,
                  Called (1, recorder 1) click, SetState 1 Pressed,
                  Called (0, recorder 0) keyPress, Called (1, recorder 1) keyPress],
       queued = [click, keyPress]\<rparr>"
  by (simp add: recorded_def world_defs step_defs dispatch_step dispatch_empty recorder_def
      event_defs)

text \<open>
  The theorem at a click and a key press queued for two listeners that record their own
  number and the event they are given.
\<close>

theorem dispatch_calls_each_listener_once_per_event_in_order_witness:
  "eventQueue recorded = [click, keyPress]
   \<and> map_option client (dispatchEvents recorded)
       = Some [(0, click), (1, click), (0, keyPress), (1, keyPress)]
   \<and> map_option (filter is_Called \<circ> history) (dispatchEvents recorded)
       = Some [Called (0, recorder 0) click, Called (1, recorder 1) click,
               Called (0, recorder 0) keyPress, Called (1, recorder 1) keyPress]"
proof -
  define W where "W = the (dispatchEvents recorded)"
  have d: "dispatchEvents recorded = Some W"
    by (simp add: W_def recorded_run)
  have W: "queued W = [click, keyPress]"
    by (simp add: W_def recorded_run)
  have b: "eventQueue recorded = [click, keyPress]" "queued recorded = [click, keyPress]"
    "listeners recorded = [(0, recorder 0), (1, recorder 1)]"
    "itemState recorded = (\<lambda>it. Normal)" "client recorded = []" "history recorded = []"
    by (simp_all add: recorded_def world_defs step_defs)
  have pd: "pass_deliveries recorded W
      = [(click, (0, recorder 0)), (click, (1, recorder 1)),
         (keyPress, (0, recorder 0)), (keyPress, (1, recorder 1))]"
    by (simp add: pass_deliveries_def pass_events_def deliveries_def enqueued_since_def W b)
  note T = dispatch_calls_each_listener_once_per_event_in_order[of two_recorders "[click, keyPress]"]
    dispatch_calls_each_listener_once_per_event_in_order[of recorded]
  have q: "eventQueue recorded = [click, keyPress]"
    using T(1) by (simp add: recorded_def world_defs step_defs)
  have o: "outside W = foldl deliver (outside recorded) (pass_deliveries recorded W)"
    and h: "filter is_Called (history W)
        = filter is_Called (history recorded)
          @ map (\<lambda>d. Called (snd d) (fst d)) (pass_deliveries recorded W)"
    using T(2) d by blast+
  have "client W = [(0, click), (1, click), (0, keyPress), (1, keyPress)]"
    using o unfolding pd by (simp add: outside_def b recorder_def)
  moreover have "filter is_Called (history W)
      = [Called (0, recorder 0) click, Called (1, recorder 1) click,
         Called (0, recorder 0) keyPress, Called (1, recorder 1) keyPress]"
    using h unfolding pd by (simp add: b)
  ultimately show ?thesis using d q by simp
qed









end
